theory Spec2Isabelle
  imports Complex_Main "HOL-Library.Word"
begin

unbundle bit_operations_syntax

section \<open>torusLang.c: line arena, Q4.4 numbers, bytecode VM and micro-JIT\<close>

text \<open>
  A shallow embedding of \<^verbatim>\<open>src/torusLang.c\<close>. The C globals \<^verbatim>\<open>arena\<close>,
  \<^verbatim>\<open>last_line\<close>, \<^verbatim>\<open>ledger\<close>, \<^verbatim>\<open>stack\<close> and \<^verbatim>\<open>sp\<close> are the fields of one
  record that every operation takes and returns. Fixed-size C arrays are functions from
  the index to the cell, with the array bound checked where the C code indexes them; an
  access outside the array is undefined behaviour in C and is the result \<open>None\<close> here.
\<close>

subsection \<open>0. Configuration\<close>

definition LINE_SZ :: nat where
  "LINE_SZ = 256"

definition BUF_LINES :: nat where
  "BUF_LINES = 1024"

type_synonym num8_t = "8 word"

subsection \<open>1. Arena\<close>

text \<open>
  \<^verbatim>\<open>typedef struct { char text[LINE_SZ]; uint32_t hash; uint8_t bc[128]; uint8_t bc_len; } line_t;\<close>
  The field \<open>text\<close> holds the bytes of the character array in front of the terminating
  NUL that \<^verbatim>\<open>fgets\<close> and static initialisation guarantee; the C string it denotes ends
  at the first NUL byte, which \<open>cstr\<close> computes.
\<close>

record line_t =
  "text" :: string
  hash :: "32 word"
  bc :: "nat \<Rightarrow> 8 word"
  bc_len :: "8 word"

definition bc_size :: nat where
  "bc_size = 128"

definition cstr :: "string \<Rightarrow> string" where
  "cstr s = takeWhile (\<lambda>c. c \<noteq> CHR 0x00) s"

text \<open>The statically initialised (all-zero) slot of the arena.\<close>

definition zero_line :: line_t where
  "zero_line = \<lparr> text = [], hash = 0, bc = (\<lambda>_. 0), bc_len = 0 \<rparr>"

text \<open>The live part of the instruction buffer: the first \<open>bc_len\<close> bytes of \<open>bc\<close>.\<close>

definition code_of :: "line_t \<Rightarrow> 8 word list" where
  "code_of L = map (bc L) [0 ..< unat (bc_len L)]"

subsection \<open>2. Ledger\<close>

record ledger_t =
  landauer :: "64 word"

subsection \<open>3. Number format (Q4.4 fixed)\<close>

text \<open>
  \<^verbatim>\<open>int16_t q = (int16_t)(x*16.0 + 0.5);\<close>
  The conversion of a \<^verbatim>\<open>double\<close> to an integer type discards the fractional part
  (truncation towards zero) and is undefined when the truncated value does not fit the
  target type. The \<^verbatim>\<open>double\<close> argument is a rational number here: the model is exact
  for every \<open>x\<close> for which \<^verbatim>\<open>x*16.0 + 0.5\<close> is computed without rounding, which
  includes every multiple of \<open>1/16\<close> between \<open>-8\<close> and \<open>7.9375\<close> (there
  \<^verbatim>\<open>x*16.0\<close> is an integer of magnitude at most 128).
\<close>

definition trunc_toward_zero :: "rat \<Rightarrow> int" where
  "trunc_toward_zero y = (if 0 \<le> y then floor y else ceiling y)"

definition encode8 :: "rat \<Rightarrow> num8_t option" where
  "encode8 x =
     (let t = trunc_toward_zero (x * 16 + 1 / 2) in
      if t < - 32768 \<or> 32767 < t then None
      else
        let q = (word_of_int t :: 16 word);
            q' = (if 127 <s q then 127 else if q <s - 128 then - 128 else q)
        in Some (ucast q'))"

definition decode8 :: "num8_t \<Rightarrow> rat" where
  "decode8 p = of_int (sint p) / 16"

text \<open>
  \<^verbatim>\<open>add8(a, b, l)\<close> increments \<^verbatim>\<open>l->landauer\<close> and returns the saturated sum; the
  model returns the byte together with the updated ledger.
\<close>

definition add8 :: "num8_t \<Rightarrow> num8_t \<Rightarrow> ledger_t \<Rightarrow> num8_t \<times> ledger_t" where
  "add8 a b l =
     (let l' = l\<lparr>landauer := landauer l + 1\<rparr>;
          r = (scast a :: 16 word) + (scast b :: 16 word);
          r' = (if 127 <s r then 127 else if r <s - 128 then - 128 else r)
      in (ucast r', l'))"

subsection \<open>4. Bytecode VM\<close>

definition OP_POSIT_ADD :: "8 word" where
  "OP_POSIT_ADD = 0x01"

definition OP_QUINE_MOMENT :: "8 word" where
  "OP_QUINE_MOMENT = 0x20"

definition OP_HALT :: "8 word" where
  "OP_HALT = 0xFF"

definition stack_size :: int where
  "stack_size = 256"

text \<open>
  The global state. \<open>last_line\<close> is a C \<^verbatim>\<open>int\<close> that starts at 0 and is only ever
  assigned \<^verbatim>\<open>(last_line+1) % BUF_LINES\<close>, hence a natural number; \<open>sp\<close> keeps its
  sign, since \<^verbatim>\<open>vm_step\<close> compares it as a signed value.
\<close>

record machine =
  arena :: "nat \<Rightarrow> line_t"
  last_line :: nat
  ledger :: ledger_t
  stack :: "nat \<Rightarrow> num8_t"
  sp :: int

definition vm_reset :: "machine \<Rightarrow> machine" where
  "vm_reset s = s\<lparr>sp := 0\<rparr>"

text \<open>
  \<^verbatim>\<open>vm_step\<close> returns the C function's \<^verbatim>\<open>bool\<close> and the state it leaves. The
  addition reads and writes \<^verbatim>\<open>stack[sp-1]\<close> and \<^verbatim>\<open>stack[sp]\<close> after the
  decrement; with \<open>sp > 256\<close> before the decrement these cells lie outside the array.
\<close>

definition vm_step :: "8 word \<Rightarrow> machine \<Rightarrow> (bool \<times> machine) option" where
  "vm_step op s =
     (if op = OP_POSIT_ADD then
        (if sp s < 2 then Some (False, s)
         else if stack_size < sp s then None
         else
           let s1 = s\<lparr>sp := sp s - 1\<rparr>;
               i = nat (sp s1);
               (r, l) = add8 (stack s1 (i - 1)) (stack s1 i) (ledger s1)
           in Some (True, s1\<lparr>ledger := l, stack := (stack s1)(i - 1 := r)\<rparr>))
      else if op = OP_QUINE_MOMENT then
        Some (True, s\<lparr>ledger := (ledger s)\<lparr>landauer := landauer (ledger s) + 1\<rparr>\<rparr>)
      else if op = OP_HALT then Some (False, s)
      else Some (False, s))"

text \<open>
  \<^verbatim>\<open>for(int i=0;i<L->bc_len;i++) if(!vm_step(L->bc[i])) break;\<close>
  \<open>bc_len\<close> is a \<^verbatim>\<open>uint8_t\<close> and may exceed the 128 cells of \<open>bc\<close>; reading
  \<^verbatim>\<open>L->bc[i]\<close> beyond them is outside the array.
\<close>

function vm_run_from :: "nat \<Rightarrow> line_t \<Rightarrow> machine \<Rightarrow> machine option" where
  "vm_run_from i L s =
     (if i < unat (bc_len L) then
        (if bc_size \<le> i then None
         else
           (case vm_step (bc L i) s of
              None \<Rightarrow> None
            | Some (continue, s') \<Rightarrow> if continue then vm_run_from (i + 1) L s' else Some s'))
      else Some s)"
  by pat_completeness auto
termination
  by (relation "measure (\<lambda>(i, L, s). unat (bc_len L) - i)") auto

definition vm_run_line :: "line_t \<Rightarrow> machine \<Rightarrow> machine option" where
  "vm_run_line L s = vm_run_from 0 L s"

subsection \<open>5. Micro-JIT\<close>

text \<open>
  \<^verbatim>\<open>while(len--) h = ((h<<5)+h) + (uint8_t)*s++;\<close> over the \<open>len\<close> bytes of the
  string, in 32-bit unsigned arithmetic.
\<close>

fun djb_loop :: "32 word \<Rightarrow> string \<Rightarrow> 32 word" where
  "djb_loop h [] = h"
| "djb_loop h (c # s) = djb_loop ((push_bit 5 h + h) + of_char c) s"

definition djb_hash :: "string \<Rightarrow> 32 word" where
  "djb_hash s = djb_loop 5381 s"

definition emit_byte :: "line_t \<Rightarrow> 8 word \<Rightarrow> line_t" where
  "emit_byte L b =
     (if unat (bc_len L) < bc_size
      then L\<lparr>bc := (bc L)(unat (bc_len L) := b), bc_len := bc_len L + 1\<rparr>
      else L)"

fun skip_space :: "string \<Rightarrow> string" where
  "skip_space [] = []"
| "skip_space (c # p) = (if c = CHR '' '' \<or> c = CHR 0x09 then skip_space p else c # p)"

lemma length_skip_space: "length (skip_space p) \<le> length p"
  by (induction p) auto

text \<open>
  The tokenizer loop of \<^verbatim>\<open>jit_line\<close>. The argument \<open>p\<close> is the C string that the
  pointer \<^verbatim>\<open>p\<close> points to (the bytes up to the NUL), so \<^verbatim>\<open>*p\<close> is non-zero exactly
  when \<open>p\<close> is not empty, and \<^verbatim>\<open>strncmp(p,"add",3)==0\<close> holds exactly when the
  first three bytes of \<open>p\<close> are \<open>add\<close>.
\<close>

function jit_loop :: "string \<Rightarrow> line_t \<Rightarrow> line_t" where
  "jit_loop p L =
     (if p = [] then L
      else
        let p1 = skip_space p in
        if take 3 p1 = ''add'' then jit_loop (drop 3 p1) (emit_byte L OP_POSIT_ADD)
        else if take 5 p1 = ''quine'' then jit_loop (drop 5 p1) (emit_byte L OP_QUINE_MOMENT)
        else L)"
  by pat_completeness auto
termination
proof (relation "measure (\<lambda>(p, L). length p)")
  show "wf (measure (\<lambda>(p, L). length p))"
    by simp
next
  fix p :: string and L :: line_t and p1 :: string
  assume "p \<noteq> []" and p1: "p1 = skip_space p" and "take 3 p1 = ''add''"
  then have "length (take 3 p1) = 3"
    by simp
  then have "3 \<le> length p1"
    by simp
  moreover have "length p1 \<le> length p"
    using p1 by (simp add: length_skip_space)
  ultimately show "((drop 3 p1, emit_byte L OP_POSIT_ADD), (p, L)) \<in> measure (\<lambda>(p, L). length p)"
    by simp
next
  fix p :: string and L :: line_t and p1 :: string
  assume "p \<noteq> []" and p1: "p1 = skip_space p" and "take 5 p1 = ''quine''"
  then have "length (take 5 p1) = 5"
    by simp
  then have "5 \<le> length p1"
    by simp
  moreover have "length p1 \<le> length p"
    using p1 by (simp add: length_skip_space)
  ultimately show "((drop 5 p1, emit_byte L OP_QUINE_MOMENT), (p, L)) \<in> measure (\<lambda>(p, L). length p)"
    by simp
qed

text \<open>
  The body of \<^verbatim>\<open>jit_line\<close> on the record \<^verbatim>\<open>L = &arena[lineno]\<close>:
  \<^verbatim>\<open>old = L->hash; L->hash = djb_hash(L->text, strlen(L->text)); if(L->hash == old) return;
  L->bc_len = 0; ...\<close>
\<close>

definition jit_line_L :: "line_t \<Rightarrow> line_t" where
  "jit_line_L L =
     (let old = hash L;
          L1 = L\<lparr>hash := djb_hash (cstr (text L))\<rparr>
      in if hash L1 = old then L1
         else jit_loop (cstr (text L1)) (L1\<lparr>bc_len := 0\<rparr>))"

text \<open>
  \<^verbatim>\<open>jit_line(lineno)\<close> on the globals. Its callers pass \<open>last_line\<close> or an index
  below it, which is a slot of the arena.
\<close>

definition jit_line :: "nat \<Rightarrow> machine \<Rightarrow> machine" where
  "jit_line lineno s = s\<lparr>arena := (arena s)(lineno := jit_line_L (arena s lineno))\<rparr>"

text \<open>\<^verbatim>\<open>vm_reset(); for(int i=0;i<=last_line;i++) jit_line(i);\<close>\<close>

function patch_from :: "nat \<Rightarrow> machine \<Rightarrow> machine" where
  "patch_from i s = (if i \<le> last_line s then patch_from (i + 1) (jit_line i s) else s)"
  by pat_completeness auto
termination
  by (relation "measure (\<lambda>(i, s). last_line s + 1 - i)") (auto simp: jit_line_def)

definition patch_vm :: "machine \<Rightarrow> machine" where
  "patch_vm s = patch_from 0 (vm_reset s)"

subsection \<open>7. REPL\<close>

text \<open>
  The loop of \<^verbatim>\<open>repl\<close> stores each line it reads in \<^verbatim>\<open>arena[last_line].text\<close> and, at
  the end of the iteration, advances \<^verbatim>\<open>last_line = (last_line+1) % BUF_LINES\<close>.
  \<open>submit_line\<close> is this write and this advance alone (the operation the specification
  calls \<open>submit_line\<close>); \<open>repl_step\<close> is the whole iteration, with \<open>jit_line\<close> and
  \<open>vm_run_line\<close> between the two. The argument of \<open>repl_step\<close> is what \<^verbatim>\<open>fgets\<close>
  returned: \<open>None\<close> for \<^verbatim>\<open>NULL\<close>, else the string it stored. The output of
  \<^verbatim>\<open>printf\<close> is left out.
\<close>

definition submit_line :: "string \<Rightarrow> machine \<Rightarrow> machine" where
  "submit_line inp s =
     s\<lparr>arena := (arena s)(last_line s := (arena s (last_line s))\<lparr>text := inp\<rparr>),
       last_line := (last_line s + 1) mod BUF_LINES\<rparr>"

datatype repl_result = Break machine | Fault | Next machine

definition repl_step :: "string option \<Rightarrow> machine \<Rightarrow> repl_result" where
  "repl_step inp s =
     (case inp of
        None \<Rightarrow> Break s
      | Some inp \<Rightarrow>
          let n = last_line s;
              s1 = s\<lparr>arena := (arena s)(n := (arena s n)\<lparr>text := inp\<rparr>)\<rparr>
          in if take 4 (cstr inp) = ''exit'' then Break s1
             else
               let s2 = jit_line n s1 in
               (case vm_run_line (arena s2 n) s2 of
                  None \<Rightarrow> Fault
                | Some s3 \<Rightarrow> Next (s3\<lparr>last_line := (last_line s3 + 1) mod BUF_LINES\<rparr>)))"

text \<open>
  A slot is populated when it holds a line. The arena starts with every text empty, and
  \<^verbatim>\<open>fgets\<close> never stores an empty string.
\<close>

definition populated :: "machine \<Rightarrow> nat \<Rightarrow> bool" where
  "populated s k = (k < BUF_LINES \<and> cstr (text (arena s k)) \<noteq> [])"

text \<open>The statically initialised globals: an all-zero arena, ledger and stack, \<open>sp = 0\<close>.\<close>

definition zero_machine :: machine where
  "zero_machine =
     \<lparr> arena = (\<lambda>_. zero_line), last_line = 0, ledger = \<lparr> landauer = 0 \<rparr>,
       stack = (\<lambda>_. 0), sp = 0 \<rparr>"

subsection \<open>The tokenizer as the specification words it\<close>

text \<open>
  A second definition, following the specification rather than the code: scan the text
  left to right, skip runs of spaces and tabs between tokens, recognise \<open>add\<close> and
  \<open>quine\<close> (as literal prefixes of what follows, which the specification asks to
  preserve), and stop at the first text that is neither. It yields the opcodes as a list
  with no capacity; \<open>jit_loop\<close> is compared with it in \<open>jit_loop_code\<close>.
\<close>

function spec_tokenize :: "string \<Rightarrow> 8 word list" where
  "spec_tokenize p =
     (if p = [] then []
      else
        let p1 = skip_space p in
        if take 3 p1 = ''add'' then OP_POSIT_ADD # spec_tokenize (drop 3 p1)
        else if take 5 p1 = ''quine'' then OP_QUINE_MOMENT # spec_tokenize (drop 5 p1)
        else [])"
  by pat_completeness auto
termination
proof (relation "measure length")
  show "wf (measure (length :: string \<Rightarrow> nat))"
    by simp
next
  fix p p1 :: string
  assume "p \<noteq> []" and p1: "p1 = skip_space p" and "take 3 p1 = ''add''"
  then have "length (take 3 p1) = 3"
    by simp
  then have "3 \<le> length p1"
    by simp
  moreover have "length p1 \<le> length p"
    using p1 by (simp add: length_skip_space)
  ultimately show "(drop 3 p1, p) \<in> measure length"
    by simp
next
  fix p p1 :: string
  assume "p \<noteq> []" and p1: "p1 = skip_space p" and "take 5 p1 = ''quine''"
  then have "length (take 5 p1) = 5"
    by simp
  then have "5 \<le> length p1"
    by simp
  moreover have "length p1 \<le> length p"
    using p1 by (simp add: length_skip_space)
  ultimately show "(drop 5 p1, p) \<in> measure length"
    by simp
qed

subsection \<open>Concrete inputs\<close>

text \<open>
  A line record whose instruction buffer holds the given opcodes, and the VM with the
  two values \<open>127\<close> (below) and \<open>1\<close> (on top) on its stack.
\<close>

definition prog :: "8 word list \<Rightarrow> line_t" where
  "prog ops = \<lparr> text = [], hash = 0, bc = (\<lambda>i. if i < length ops then ops ! i else 0),
                bc_len = of_nat (length ops) \<rparr>"

definition two_on_stack :: machine where
  "two_on_stack = zero_machine\<lparr>stack := (\<lambda>_. 0)(0 := 127, 1 := 1), sp := 2\<rparr>"



definition altered_add :: line_t where
  "altered_add = \<lparr> text = ''add'', hash = djb_hash ''add'',
                   bc = (\<lambda>_. 0)(0 := OP_QUINE_MOMENT, 1 := OP_QUINE_MOMENT), bc_len = 2 \<rparr>"

text \<open>
  The recursion equations of the loops are unfolded by hand, one iteration at a time.
\<close>

declare vm_run_from.simps [simp del]
declare jit_loop.simps [simp del]
declare patch_from.simps [simp del]
declare spec_tokenize.simps [simp del]

section \<open>Properties\<close>

subsection \<open>Casts between 8-bit and 16-bit signed values\<close>

lemma sint_ucast_16_8:
  "- 128 \<le> sint (r :: 16 word) \<Longrightarrow> sint r \<le> 127 \<Longrightarrow> sint (ucast r :: 8 word) = sint r"
proof -
  assume a: "- 128 \<le> sint r" "sint r \<le> 127"
  have "(ucast :: 16 word \<Rightarrow> 8 word) = scast"
    by (rule down_cast_same) (simp add: is_down)
  then have "sint (ucast r :: 8 word) = sint (scast r :: 8 word)"
    by simp
  also have "\<dots> = sint (word_of_int (sint r) :: 8 word)"
    by (simp only: scast_eq)
  also have "\<dots> = signed_take_bit 7 (sint r)"
    by (simp only: sint_sbintrunc') simp
  also have "\<dots> = sint r"
    using a by (intro signed_take_bit_int_eq_self) auto
  finally show ?thesis .
qed

lemma sint_scast_8_16: "sint (scast (a :: 8 word) :: 16 word) = sint a"
  by (simp add: sint_up_scast is_up)

lemma sint_8_bounds: "- 128 \<le> sint (a :: 8 word) \<and> sint a \<le> 127"
  using sint_range_size [of a] by (simp add: word_size)

lemma sint_sum: "sint ((scast (a :: 8 word) :: 16 word) + scast (b :: 8 word)) = sint a + sint b"
proof -
  have "sint ((scast a :: 16 word) + scast b) = signed_take_bit 15 (sint a + sint b)"
    by (simp add: sint_word_ariths sint_scast_8_16)
  also have "\<dots> = sint a + sint b"
    using sint_8_bounds [of a] sint_8_bounds [of b]
    by (intro signed_take_bit_int_eq_self) auto
  finally show ?thesis .
qed

lemma sint_word16_small: "- 128 \<le> t \<Longrightarrow> t \<le> 127 \<Longrightarrow> sint (word_of_int t :: 16 word) = t"
  by (simp only: sint_sbintrunc') (simp add: signed_take_bit_int_eq_self)

subsection \<open>The Q4.4 codec and the saturating addition\<close>

lemma trunc_half_int:
  "trunc_toward_zero (of_int k + 1 / 2) = (if k < 0 then k + 1 else k)"
proof (cases "k < 0")
  case True
  then have neg: "\<not> (0 :: rat) \<le> of_int k + 1 / 2"
  proof -
    from True have "k \<le> - 1" by simp
    then have "(of_int k :: rat) \<le> - 1" by (metis of_int_le_iff of_int_minus of_int_1)
    then show ?thesis by simp
  qed
  have "\<lceil>(of_int k :: rat) + 1 / 2\<rceil> = k + 1"
    by (rule ceiling_unique) simp_all
  with neg show ?thesis using True by (simp add: trunc_toward_zero_def)
next
  case False
  then have pos: "(0 :: rat) \<le> of_int k + 1 / 2"
    by simp
  have "\<lfloor>(of_int k :: rat) + 1 / 2\<rfloor> = k"
    by (rule floor_unique) simp_all
  with pos show ?thesis using False by (simp add: trunc_toward_zero_def)
qed

lemma decode8_encode8_sixteenths:
  assumes "- 128 \<le> k" and "k \<le> 127"
  shows "map_option decode8 (encode8 (of_int k / 16)) = Some (of_int (if k < 0 then k + 1 else k) / 16)"
proof -
  define t where "t = (if k < 0 then k + 1 else k)"
  have t: "- 128 \<le> t" "t \<le> 127"
    using assms by (auto simp: t_def)
  have tr: "trunc_toward_zero (of_int k / 16 * 16 + 1 / 2) = t"
    using trunc_half_int [of k] by (simp add: t_def)
  have q: "sint (word_of_int t :: 16 word) = t"
    using t by (rule sint_word16_small)
  have "encode8 (of_int k / 16) = Some (ucast (word_of_int t :: 16 word))"
    unfolding encode8_def tr Let_def using t q by (simp add: word_sless_alt)
  moreover have "sint (ucast (word_of_int t :: 16 word) :: 8 word) = t"
    using sint_ucast_16_8 [of "word_of_int t"] t q by simp
  ultimately show ?thesis
    by (simp add: decode8_def t_def)
qed

lemma add8_value: "sint (fst (add8 a b l)) = max (- 128) (min 127 (sint a + sint b))"
proof -
  define r where "r = (scast a :: 16 word) + scast b"
  have r: "sint r = sint a + sint b"
    by (simp add: r_def sint_sum)
  have c127: "sint (127 :: 16 word) = 127" and c128: "sint (- 128 :: 16 word) = - 128"
    by simp_all
  consider "127 < sint r" | "sint r < - 128" | "- 128 \<le> sint r" "sint r \<le> 127"
    by linarith
  then have "sint (ucast (if 127 <s r then 127 else if r <s - 128 then - 128 else r) :: 8 word)
      = max (- 128) (min 127 (sint r))"
  proof cases
    case 1
    then show ?thesis by (simp add: word_sless_alt)
  next
    case 2
    then show ?thesis by (simp add: word_sless_alt)
  next
    case 3
    then show ?thesis by (simp add: word_sless_alt sint_ucast_16_8)
  qed
  then show ?thesis
    by (simp add: add8_def Let_def r_def [symmetric] r)
qed

lemma add8_ledger: "snd (add8 a b l) = l\<lparr>landauer := landauer l + 1\<rparr>"
  by (simp add: add8_def Let_def)

subsection \<open>The VM\<close>

lemma vm_step_sp_le: "vm_step op s = Some (c, s') \<Longrightarrow> sp s' \<le> sp s"
  by (auto simp: vm_step_def Let_def split: if_splits prod.splits)

lemma vm_step_defined: "sp s \<le> stack_size \<Longrightarrow> \<exists>c s'. vm_step op s = Some (c, s')"
  by (auto simp: vm_step_def Let_def split: if_splits prod.splits)

lemma vm_step_empty: "sp s = 0 \<Longrightarrow> vm_step op s = Some (c, s') \<Longrightarrow> sp s' = 0 \<and> stack s' = stack s"
  by (auto simp: vm_step_def Let_def split: if_splits prod.splits)

lemma vm_step_halt: "op \<noteq> OP_POSIT_ADD \<Longrightarrow> op \<noteq> OP_QUINE_MOMENT \<Longrightarrow> vm_step op s = Some (False, s)"
  by (simp add: vm_step_def)

lemma vm_step_underflow: "sp s < 2 \<Longrightarrow> vm_step OP_POSIT_ADD s = Some (False, s)"
  by (simp add: vm_step_def)


lemma vm_step_arena: "vm_step op s = Some (c, s') \<Longrightarrow> arena s' = arena s \<and> last_line s' = last_line s"
  by (auto simp: vm_step_def Let_def split: if_splits prod.splits)

lemma vm_run_from_stop:
  "i < unat (bc_len L) \<Longrightarrow> i < bc_size \<Longrightarrow> vm_step (bc L i) s = Some (False, s') \<Longrightarrow>
   vm_run_from i L s = Some s'"
  by (subst vm_run_from.simps) simp

lemma vm_run_from_sp:
  "unat (bc_len L) \<le> bc_size \<Longrightarrow> sp s \<le> stack_size \<Longrightarrow>
   \<exists>s'. vm_run_from i L s = Some s' \<and> sp s' \<le> sp s"
proof (induction i L s rule: vm_run_from.induct)
  case (1 i L s)
  show ?case
  proof (cases "i < unat (bc_len L)")
    case False
    then show ?thesis by (subst vm_run_from.simps) simp
  next
    case True
    with "1.prems" have lt: "\<not> bc_size \<le> i" by simp
    obtain c s1 where st: "vm_step (bc L i) s = Some (c, s1)"
      using vm_step_defined [OF "1.prems"(2)] by blast
    have le: "sp s1 \<le> sp s" using st by (rule vm_step_sp_le)
    show ?thesis
    proof (cases c)
      case False
      with True lt st le show ?thesis by (subst vm_run_from.simps) simp
    next
      case c: True
      have "\<exists>s'. vm_run_from (i + 1) L s1 = Some s' \<and> sp s' \<le> sp s1"
        using "1.IH" [OF True lt st refl c "1.prems"(1)] le "1.prems"(2) by simp
      with True lt st le c show ?thesis by (subst vm_run_from.simps) auto
    qed
  qed
qed


lemma vm_run_from_empty:
  "unat (bc_len L) \<le> bc_size \<Longrightarrow> sp s = 0 \<Longrightarrow>
   \<exists>s'. vm_run_from i L s = Some s' \<and> sp s' = 0 \<and> stack s' = stack s"
proof (induction i L s rule: vm_run_from.induct)
  case (1 i L s)
  show ?case
  proof (cases "i < unat (bc_len L)")
    case False
    with "1.prems" show ?thesis by (subst vm_run_from.simps) simp
  next
    case True
    with "1.prems" have lt: "\<not> bc_size \<le> i" by simp
    have "sp s \<le> stack_size" using "1.prems"(2) by (simp add: stack_size_def)
    then obtain c s1 where st: "vm_step (bc L i) s = Some (c, s1)"
      using vm_step_defined by blast
    have e: "sp s1 = 0 \<and> stack s1 = stack s"
      using "1.prems"(2) st by (rule vm_step_empty)
    show ?thesis
    proof (cases c)
      case False
      with True lt st e show ?thesis by (subst vm_run_from.simps) simp
    next
      case c: True
      have "\<exists>s'. vm_run_from (i + 1) L s1 = Some s' \<and> sp s' = 0 \<and> stack s' = stack s1"
        using "1.IH" [OF True lt st refl c "1.prems"(1)] e by simp
      with True lt st e c show ?thesis by (subst vm_run_from.simps) auto
    qed
  qed
qed


lemma vm_run_from_arena:
  "vm_run_from i L s = Some s' \<Longrightarrow> arena s' = arena s \<and> last_line s' = last_line s"
proof (induction i L s rule: vm_run_from.induct)
  case (1 i L s)
  show ?case
  proof (cases "i < unat (bc_len L) \<and> \<not> bc_size \<le> i")
    case False
    with "1.prems" show ?thesis by (subst (asm) vm_run_from.simps) (auto split: if_splits)
  next
    case True
    then have lt: "i < unat (bc_len L)" "\<not> bc_size \<le> i" by simp_all
    from "1.prems" lt obtain c s1 where st: "vm_step (bc L i) s = Some (c, s1)"
      by (subst (asm) vm_run_from.simps) (auto split: option.splits)
    have a: "arena s1 = arena s \<and> last_line s1 = last_line s"
      using st by (rule vm_step_arena)
    show ?thesis
    proof (cases c)
      case False
      with "1.prems" lt st have "s' = s1" by (subst (asm) vm_run_from.simps) simp
      with a show ?thesis by simp
    next
      case c: True
      with "1.prems" lt st have "vm_run_from (i + 1) L s1 = Some s'"
        by (subst (asm) vm_run_from.simps) simp
      with "1.IH" [OF lt st refl c] a show ?thesis by simp
    qed
  qed
qed

lemma vm_step_add:
  "2 \<le> sp s \<Longrightarrow> sp s \<le> stack_size \<Longrightarrow>
   vm_step OP_POSIT_ADD s =
     Some (True, s\<lparr>sp := sp s - 1,
                      ledger := (ledger s)\<lparr>landauer := landauer (ledger s) + 1\<rparr>,
                      stack := (stack s)(nat (sp s - 2) :=
                        fst (add8 (stack s (nat (sp s - 2))) (stack s (nat (sp s - 1))) (ledger s)))\<rparr>)"
proof -
  assume a: "2 \<le> sp s" "sp s \<le> stack_size"
  have i: "nat (sp s - 1) - Suc 0 = nat (sp s - 2)"
    using a(1) by linarith
  have l: "snd (add8 x y (ledger s)) = (ledger s)\<lparr>landauer := landauer (ledger s) + 1\<rparr>" for x y
    by (simp add: add8_def Let_def)
  show ?thesis
    using a by (simp add: vm_step_def Let_def split_beta i l)
qed

subsection \<open>The micro-JIT\<close>

lemma emit_byte_text [simp]: "text (emit_byte L b) = text L"
  by (simp add: emit_byte_def)

lemma emit_byte_hash [simp]: "hash (emit_byte L b) = hash L"
  by (simp add: emit_byte_def)

lemma unat_bc_len_Suc: "unat (n :: 8 word) < bc_size \<Longrightarrow> unat (n + 1) = Suc (unat n)"
  using unat_add_lem [of n 1] by (simp add: bc_size_def)

lemma emit_byte_len: "unat (bc_len L) \<le> bc_size \<Longrightarrow> unat (bc_len (emit_byte L b)) \<le> bc_size"
  by (simp add: emit_byte_def unat_bc_len_Suc)

lemma emit_byte_code:
  "unat (bc_len L) \<le> bc_size \<Longrightarrow> code_of (emit_byte L b) = take bc_size (code_of L @ [b])"
  by (auto simp: emit_byte_def code_of_def unat_bc_len_Suc)

lemma jit_loop_text [simp]: "text (jit_loop p L) = text L"
  by (induction p L rule: jit_loop.induct) (subst jit_loop.simps, simp add: Let_def)

lemma jit_loop_hash [simp]: "hash (jit_loop p L) = hash L"
  by (induction p L rule: jit_loop.induct) (subst jit_loop.simps, simp add: Let_def)

lemma jit_loop_len: "unat (bc_len L) \<le> bc_size \<Longrightarrow> unat (bc_len (jit_loop p L)) \<le> bc_size"
  by (induction p L rule: jit_loop.induct) (subst jit_loop.simps, simp add: Let_def emit_byte_len)

lemma take_take_append: "take n (take n xs @ ys) = take n (xs @ ys)"
  by (cases "n \<le> length xs") auto

lemma jit_loop_code:
  "unat (bc_len L) \<le> bc_size \<Longrightarrow> code_of (jit_loop p L) = take bc_size (code_of L @ spec_tokenize p)"
proof (induction p L rule: jit_loop.induct)
  case (1 p L)
  have len: "length (code_of L) \<le> bc_size"
    using "1.prems" by (simp add: code_of_def)
  show ?case
  proof (cases "p = []")
    case True
    with len show ?thesis
      by (subst jit_loop.simps, subst spec_tokenize.simps) simp
  next
    case False
    show ?thesis
    proof (cases "take 3 (skip_space p) = ''add''")
      case True
      have "code_of (jit_loop (drop 3 (skip_space p)) (emit_byte L OP_POSIT_ADD))
          = take bc_size (code_of (emit_byte L OP_POSIT_ADD) @ spec_tokenize (drop 3 (skip_space p)))"
        using "1.IH"(1) [OF False refl True] "1.prems" by (simp add: emit_byte_len)
      also have "\<dots> = take bc_size (code_of L @ OP_POSIT_ADD # spec_tokenize (drop 3 (skip_space p)))"
        by (simp only: emit_byte_code [OF "1.prems"] take_take_append append_assoc append_Cons append_Nil)
      finally show ?thesis
        using False True by (subst jit_loop.simps, subst spec_tokenize.simps) (simp add: Let_def)
    next
      case nadd: False
      show ?thesis
      proof (cases "take 5 (skip_space p) = ''quine''")
        case True
        have "code_of (jit_loop (drop 5 (skip_space p)) (emit_byte L OP_QUINE_MOMENT))
            = take bc_size (code_of (emit_byte L OP_QUINE_MOMENT) @ spec_tokenize (drop 5 (skip_space p)))"
          using "1.IH"(2) [OF False refl nadd True] "1.prems" by (simp add: emit_byte_len)
        also have "\<dots> = take bc_size (code_of L @ OP_QUINE_MOMENT # spec_tokenize (drop 5 (skip_space p)))"
          by (simp only: emit_byte_code [OF "1.prems"] take_take_append append_assoc append_Cons append_Nil)
        finally show ?thesis
          using False nadd True by (subst jit_loop.simps, subst spec_tokenize.simps) (simp add: Let_def)
      next
        case False
        with \<open>p \<noteq> []\<close> nadd len show ?thesis
          by (subst jit_loop.simps, subst spec_tokenize.simps) (simp add: Let_def)
      qed
    qed
  qed
qed

lemma jit_line_L_hit: "hash L = djb_hash (cstr (text L)) \<Longrightarrow> jit_line_L L = L"
  by (simp add: jit_line_L_def Let_def)

lemma jit_line_L_text [simp]: "text (jit_line_L L) = text L"
  by (simp add: jit_line_L_def Let_def)

lemma jit_line_L_hash [simp]: "hash (jit_line_L L) = djb_hash (cstr (text L))"
  by (simp add: jit_line_L_def Let_def)

lemma jit_line_L_idem: "jit_line_L (jit_line_L L) = jit_line_L L"
  by (rule jit_line_L_hit) simp

lemma jit_line_L_len: "unat (bc_len L) \<le> bc_size \<Longrightarrow> unat (bc_len (jit_line_L L)) \<le> bc_size"
  by (simp add: jit_line_L_def Let_def jit_loop_len)

lemma jit_line_L_miss_code:
  "hash L \<noteq> djb_hash (cstr (text L)) \<Longrightarrow>
   code_of (jit_line_L L) = take bc_size (spec_tokenize (cstr (text L)))"
  by (simp add: jit_line_L_def Let_def jit_loop_code) (simp add: code_of_def)

lemma jit_line_sp [simp]: "sp (jit_line k s) = sp s"
  by (simp add: jit_line_def)

lemma jit_line_last [simp]: "last_line (jit_line k s) = last_line s"
  by (simp add: jit_line_def)


lemma patch_from_sp [simp]: "sp (patch_from i s) = sp s"
  by (induction i s rule: patch_from.induct) (subst patch_from.simps, simp)

lemma patch_from_arena:
  "arena (patch_from i s) k = (if i \<le> k \<and> k \<le> last_line s then jit_line_L (arena s k) else arena s k)"
proof (induction i s rule: patch_from.induct)
  case (1 i s)
  show ?case
  proof (cases "i \<le> last_line s")
    case True
    with "1.IH" show ?thesis
      by (subst patch_from.simps) (auto simp: jit_line_def)
  next
    case False
    then show ?thesis by (subst patch_from.simps) auto
  qed
qed

subsection \<open>Submitting lines\<close>

lemma repl_step_submit:
  assumes "repl_step (Some inp) s = Next s'"
  shows "last_line s' = last_line (submit_line inp s) \<and>
         text (arena s' k) = text (arena (submit_line inp s) k)"
proof -
  define n where "n = last_line s"
  define s1 where "s1 = s\<lparr>arena := (arena s)(n := (arena s n)\<lparr>text := inp\<rparr>)\<rparr>"
  define s2 where "s2 = jit_line n s1"
  from assms obtain s3 where r: "vm_run_line (arena s2 n) s2 = Some s3"
    and s': "s' = s3\<lparr>last_line := (last_line s3 + 1) mod BUF_LINES\<rparr>"
    by (auto simp: repl_step_def Let_def n_def s1_def s2_def split: if_splits option.splits)
  from r have a: "arena s3 = arena s2 \<and> last_line s3 = last_line s2"
    unfolding vm_run_line_def by (rule vm_run_from_arena)
  have "last_line s2 = last_line s"
    by (simp add: s2_def s1_def)
  moreover have "text (arena s2 k) = text (arena s1 k)"
    by (simp add: s2_def jit_line_def)
  ultimately show ?thesis
    using a s' by (simp add: submit_line_def s1_def n_def)
qed

lemma populated_repl_step:
  "repl_step (Some inp) s = Next s' \<Longrightarrow> populated s' k = populated (submit_line inp s) k"
  using repl_step_submit [of inp s s' k] by (simp add: populated_def)




lemma populated_zero [simp]: "\<not> populated zero_machine k"
  by (simp add: populated_def zero_machine_def zero_line_def cstr_def)


subsection \<open>Concrete runs\<close>


lemma spec_tokenize_addx: "spec_tokenize ''addx'' = [OP_POSIT_ADD]"
  by code_simp


lemma jit_add: "code_of (jit_line_L (zero_line\<lparr>text := ''add''\<rparr>)) = [OP_POSIT_ADD]"
  by code_simp


lemma spec_tokenize_quine_add: "take bc_size (spec_tokenize (cstr ''quine add'')) = [OP_QUINE_MOMENT, OP_POSIT_ADD]"
  by code_simp

section \<open>The claims\<close>

subsection \<open>C1: encode/decode round trip\<close>

text \<open>
  Claim C1 says that \<open>decode8 (encode8 x) = x\<close> for every multiple \<open>x\<close> of \<open>1/16\<close>
  with \<open>-8 \<le> x \<le> 7.9375\<close>. The code does this for \<open>x \<ge> 0\<close> only
  (\<open>decode8_encode8_sixteenths\<close>): the cast to \<^verbatim>\<open>int16_t\<close> truncates towards zero, so
  adding \<open>0.5\<close> first moves every negative multiple one step up. At \<open>x = -1/16\<close>
  the code computes \<^verbatim>\<open>(int16_t)(-0.5) = 0\<close> and decodes \<open>0\<close>; at \<open>x = -8\<close> it
  computes \<^verbatim>\<open>(int16_t)(-127.5) = -127\<close> and decodes \<open>-7.9375\<close>.
\<close>

theorem encode8_decode8_negative_off_by_one:
  "map_option decode8 (encode8 (- (1 / 16))) = Some 0 \<and>
   map_option decode8 (encode8 (- 8)) = Some (- (127 / 16))"
  by code_simp

subsection \<open>C2: the text \<open>addx\<close>\<close>

text \<open>
  Claim C2, as the code has it: compiling the text \<open>addx\<close> into a line whose stored
  hash differs from the hash of \<open>addx\<close> yields the one-instruction buffer
  \<open>[ADD]\<close>. \<^verbatim>\<open>strncmp(p,"add",3)\<close> matches \<open>add\<close> as a prefix of \<open>addx\<close>, and
  the loop stops at the remaining \<open>x\<close>.
\<close>

theorem addx_compiles_to_add:
  assumes "hash L \<noteq> djb_hash ''addx''"
  shows "code_of (jit_line_L (L\<lparr>text := ''addx''\<rparr>)) = [OP_POSIT_ADD]"
proof -
  have c: "cstr ''addx'' = ''addx''"
    by (simp add: cstr_def)
  have "code_of (jit_line_L (L\<lparr>text := ''addx''\<rparr>)) = take bc_size (spec_tokenize ''addx'')"
    using assms jit_line_L_miss_code [of "L\<lparr>text := ''addx''\<rparr>"] by (simp add: c)
  then show ?thesis
    by (simp add: spec_tokenize_addx bc_size_def)
qed

theorem addx_compiles_to_add_witness:
  "hash zero_line \<noteq> djb_hash ''addx'' \<and>
   code_of (jit_line_L (zero_line\<lparr>text := ''addx''\<rparr>)) = [OP_POSIT_ADD]"
proof -
  have h: "hash zero_line \<noteq> djb_hash ''addx''"
    by (simp add: zero_line_def djb_hash_def)
  from h addx_compiles_to_add [OF h] show ?thesis
    by simp
qed

text \<open>
  The claim as stated (\<open>code_len = 0\<close>) fails on the freshly initialised slot that holds
  the text \<open>addx\<close>.
\<close>

theorem addx_code_len_not_zero:
  "bc_len (jit_line_L (zero_line\<lparr>text := ''addx''\<rparr>)) \<noteq> 0"
  by code_simp

subsection \<open>C3: cache invalidation\<close>

text \<open>
  Claim C3, as the code has it: when the hash of the new text differs from the hash
  stored in the line, \<open>jit_line\<close> stores the hash of the new text and the live
  instruction buffer (the first \<open>bc_len\<close> bytes of \<open>bc\<close>) becomes the opcodes of the
  new text alone, cut at the capacity of 128: nothing of the old buffer survives in it and
  nothing is appended to it. When the hash of the new text equals the stored hash,
  \<open>jit_line\<close> returns the record as it is, with the buffer it had. The test of the code
  is on the hashes, not on the texts.
\<close>

theorem jit_line_rebuilds_iff_hash_changes:
  "(djb_hash (cstr t') \<noteq> hash L \<longrightarrow>
      text (jit_line_L (L\<lparr>text := t'\<rparr>)) = t' \<and>
      hash (jit_line_L (L\<lparr>text := t'\<rparr>)) = djb_hash (cstr t') \<and>
      code_of (jit_line_L (L\<lparr>text := t'\<rparr>)) = take bc_size (spec_tokenize (cstr t'))) \<and>
   (djb_hash (cstr t') = hash L \<longrightarrow> jit_line_L (L\<lparr>text := t'\<rparr>) = L\<lparr>text := t'\<rparr>)"
  using jit_line_L_miss_code [of "L\<lparr>text := t'\<rparr>"] jit_line_L_hit [of "L\<lparr>text := t'\<rparr>"] by auto

theorem jit_line_rebuilds_iff_hash_changes_witness:
  "djb_hash (cstr ''quine add'') \<noteq> hash (jit_line_L (zero_line\<lparr>text := ''add add''\<rparr>)) \<and>
   code_of (jit_line_L (zero_line\<lparr>text := ''add add''\<rparr>)) = [OP_POSIT_ADD, OP_POSIT_ADD] \<and>
   code_of (jit_line_L ((jit_line_L (zero_line\<lparr>text := ''add add''\<rparr>))\<lparr>text := ''quine add''\<rparr>))
     = [OP_QUINE_MOMENT, OP_POSIT_ADD] \<and>
   djb_hash (cstr ''bCd'') = hash altered_add \<and>
   code_of (altered_add\<lparr>text := ''bCd''\<rparr>) = [OP_QUINE_MOMENT, OP_QUINE_MOMENT] \<and>
   code_of (jit_line_L (altered_add\<lparr>text := ''bCd''\<rparr>)) = [OP_QUINE_MOMENT, OP_QUINE_MOMENT]"
proof -
  have h: "djb_hash (cstr ''quine add'') \<noteq> hash (jit_line_L (zero_line\<lparr>text := ''add add''\<rparr>))"
    by code_simp
  have a: "code_of (jit_line_L (zero_line\<lparr>text := ''add add''\<rparr>)) = [OP_POSIT_ADD, OP_POSIT_ADD]"
    by code_simp
  have e: "djb_hash (cstr ''bCd'') = hash altered_add"
    by (simp add: altered_add_def cstr_def djb_hash_def)
  have b: "code_of (altered_add\<lparr>text := ''bCd''\<rparr>) = [OP_QUINE_MOMENT, OP_QUINE_MOMENT]"
    by (simp add: altered_add_def code_of_def upt_rec)
  from jit_line_rebuilds_iff_hash_changes [of "''quine add''" "jit_line_L (zero_line\<lparr>text := ''add add''\<rparr>)"] h
  have c: "code_of (jit_line_L ((jit_line_L (zero_line\<lparr>text := ''add add''\<rparr>))\<lparr>text := ''quine add''\<rparr>))
     = [OP_QUINE_MOMENT, OP_POSIT_ADD]"
    by (simp add: spec_tokenize_quine_add)
  from jit_line_rebuilds_iff_hash_changes [of "''bCd''" altered_add] e
  have d: "jit_line_L (altered_add\<lparr>text := ''bCd''\<rparr>) = altered_add\<lparr>text := ''bCd''\<rparr>"
    by simp
  from h a c e b d show ?thesis
    by simp
qed

text \<open>
  The claim as stated (for every new text that differs from the old one) fails when the two
  texts have the same hash. The texts \<open>add\<close> and \<open>bCd\<close> do: the line compiled from
  \<open>add\<close> keeps the buffer \<open>[ADD]\<close> after its text has become \<open>bCd\<close>, while
  \<open>bCd\<close> compiled into a fresh line gives the empty buffer.
\<close>

theorem stale_code_on_hash_collision:
  "text (jit_line_L (zero_line\<lparr>text := ''add''\<rparr>)) \<noteq> ''bCd'' \<and>
   code_of (jit_line_L ((jit_line_L (zero_line\<lparr>text := ''add''\<rparr>))\<lparr>text := ''bCd''\<rparr>)) = [OP_POSIT_ADD] \<and>
   code_of (jit_line_L (zero_line\<lparr>text := ''bCd''\<rparr>)) = []"
  by code_simp

subsection \<open>C4: the stack never grows\<close>

text \<open>
  Claim C4: for every instruction buffer of at most 128 bytes (every compiled buffer is
  one) and every VM state with \<open>sp \<le> 256\<close>, \<open>vm_run_line\<close> returns, and the stack
  pointer it leaves is at most the one it found. Started with \<open>sp = 0\<close> it leaves
  \<open>sp = 0\<close> and the stack cells as they were, and \<open>ADD\<close> still takes the underflow
  exit: no addition is ever performed.
\<close>

theorem stack_depth_never_grows:
  assumes "unat (bc_len L) \<le> bc_size" and "sp s \<le> stack_size"
  shows "\<exists>s'. vm_run_line L s = Some s' \<and> sp s' \<le> sp s \<and>
           (sp s = 0 \<longrightarrow> sp s' = 0 \<and> stack s' = stack s \<and>
                        vm_step OP_POSIT_ADD s' = Some (False, s'))"
proof (cases "sp s = 0")
  case True
  from vm_run_from_empty [OF assms(1) True, of 0]
  obtain s' where s': "vm_run_line L s = Some s'" "sp s' = 0" "stack s' = stack s"
    by (auto simp: vm_run_line_def)
  then have "vm_step OP_POSIT_ADD s' = Some (False, s')"
    by (simp add: vm_step_underflow)
  with s' True show ?thesis by simp
next
  case False
  with vm_run_from_sp [OF assms, of 0] show ?thesis
    by (simp add: vm_run_line_def)
qed

theorem stack_depth_never_grows_witness:
  "unat (bc_len (jit_line_L (zero_line\<lparr>text := ''quine add quine''\<rparr>))) \<le> bc_size \<and>
   sp zero_machine \<le> stack_size \<and> sp zero_machine = 0 \<and>
   map_option sp (vm_run_line (jit_line_L (zero_line\<lparr>text := ''quine add quine''\<rparr>)) zero_machine) = Some 0 \<and>
   map_option stack (vm_run_line (jit_line_L (zero_line\<lparr>text := ''quine add quine''\<rparr>)) zero_machine)
     = Some (stack zero_machine)"
proof -
  have a: "unat (bc_len (jit_line_L (zero_line\<lparr>text := ''quine add quine''\<rparr>))) \<le> bc_size"
    by code_simp
  have b: "sp zero_machine \<le> stack_size"
    by (simp add: zero_machine_def stack_size_def)
  have c: "sp zero_machine = 0"
    by (simp add: zero_machine_def)
  from stack_depth_never_grows [OF a b] a b c show ?thesis
    by auto
qed

subsection \<open>C5: cache hit\<close>

text \<open>
  Claim C5: a second \<open>jit_line\<close> on a line whose text has not changed returns the
  record of the first call, equal in every field (text, hash, all bytes of \<open>bc\<close>,
  \<open>bc_len\<close>). After the first call the stored hash is the hash of the text, which is
  the test \<^verbatim>\<open>L->hash == old\<close> of the early return; and whenever that test holds,
  \<open>jit_line\<close> returns the record it was given, whatever its buffer holds: the call
  leaves before the buffer length is reset and before the tokenizer loop.
\<close>

theorem jit_line_second_call_returns_at_hash_check:
  "jit_line_L (jit_line_L L) = jit_line_L L \<and>
   hash (jit_line_L L) = djb_hash (cstr (text (jit_line_L L))) \<and>
   (hash L = djb_hash (cstr (text L)) \<longrightarrow> jit_line_L L = L) \<and>
   jit_line k (jit_line k s) = jit_line k s"
  by (simp add: jit_line_L_idem jit_line_L_hit jit_line_def)

theorem jit_line_second_call_returns_at_hash_check_witness:
  "hash altered_add = djb_hash (cstr (text altered_add)) \<and>
   code_of altered_add = [OP_QUINE_MOMENT, OP_QUINE_MOMENT] \<and>
   code_of (jit_line_L altered_add) = [OP_QUINE_MOMENT, OP_QUINE_MOMENT] \<and>
   code_of (jit_line_L (zero_line\<lparr>text := ''add''\<rparr>)) = [OP_POSIT_ADD]"
proof -
  have h: "hash altered_add = djb_hash (cstr (text altered_add))"
    by (simp add: altered_add_def cstr_def)
  have b: "code_of altered_add = [OP_QUINE_MOMENT, OP_QUINE_MOMENT]"
    by (simp add: altered_add_def code_of_def upt_rec)
  from jit_line_second_call_returns_at_hash_check [of altered_add] h
  have d: "jit_line_L altered_add = altered_add"
    by simp
  from h b d jit_add show ?thesis
    by simp
qed

subsection \<open>C6: underflow\<close>

text \<open>
  Claim C6: with \<open>sp = 0\<close>, an instruction buffer that starts with \<open>ADD\<close> (the buffer
  \<open>[ADD]\<close> in particular) leaves the whole VM state as it was: the stack cells, the
  stack pointer and the ledger. \<open>vm_step\<close> returns \<open>false\<close>, \<open>vm_run_line\<close> returns
  normally, and the instructions behind the \<open>ADD\<close> are not executed.
\<close>

theorem add_underflow_aborts:
  assumes "sp s = 0" and "bc L 0 = OP_POSIT_ADD" and "0 < unat (bc_len L)"
  shows "vm_step OP_POSIT_ADD s = Some (False, s) \<and> vm_run_line L s = Some s"
proof -
  have st: "vm_step (bc L 0) s = Some (False, s)"
    using assms(1,2) by (simp add: vm_step_underflow)
  have "vm_run_from 0 L s = Some s"
    using assms(3) _ st by (rule vm_run_from_stop) (simp add: bc_size_def)
  with st assms(2) show ?thesis
    by (simp add: vm_run_line_def)
qed

theorem add_underflow_aborts_witness:
  "sp zero_machine = 0 \<and> bc (prog [OP_POSIT_ADD]) 0 = OP_POSIT_ADD \<and>
   0 < unat (bc_len (prog [OP_POSIT_ADD])) \<and>
   vm_run_line (prog [OP_POSIT_ADD]) zero_machine = Some zero_machine"
proof -
  have a: "sp zero_machine = 0"
    by (simp add: zero_machine_def)
  have b: "bc (prog [OP_POSIT_ADD]) 0 = OP_POSIT_ADD"
    by (simp add: prog_def)
  have c: "0 < unat (bc_len (prog [OP_POSIT_ADD]))"
    by (simp add: prog_def)
  from add_underflow_aborts [OF a b c] a b c show ?thesis
    by simp
qed

subsection \<open>C7: recompiling the whole arena\<close>




subsection \<open>C8: saturating addition\<close>

text \<open>
  Claim C8: \<open>add8 127 1\<close> returns \<open>127\<close> and the ledger incremented by one. For all
  operands the byte that \<open>add8\<close> returns is, read as a signed value, the sum of the two
  signed operands clamped to \<open>[-128, 127]\<close>, and the ledger is incremented by one (as a
  64-bit unsigned counter). With at least two values on the stack \<open>ADD\<close> continues,
  lowers \<open>sp\<close> by one, writes the result of \<open>add8\<close> on the two top values into the cell
  that is the new top, and leaves the ledger incremented by one.
\<close>

theorem add8_saturates:
  "add8 127 1 l = (127, l\<lparr>landauer := landauer l + 1\<rparr>) \<and>
   sint (fst (add8 a b l)) = max (- 128) (min 127 (sint a + sint b)) \<and>
   snd (add8 a b l) = l\<lparr>landauer := landauer l + 1\<rparr> \<and>
   (2 \<le> sp s \<and> sp s \<le> stack_size \<longrightarrow>
      vm_step OP_POSIT_ADD s =
        Some (True, s\<lparr>sp := sp s - 1,
                         ledger := (ledger s)\<lparr>landauer := landauer (ledger s) + 1\<rparr>,
                         stack := (stack s)(nat (sp s - 2) :=
                           fst (add8 (stack s (nat (sp s - 2))) (stack s (nat (sp s - 1))) (ledger s)))\<rparr>))"
proof -
  have "add8 127 1 l = (127, l\<lparr>landauer := landauer l + 1\<rparr>)"
    by (simp add: add8_def Let_def word_sless_alt)
  then show ?thesis
    using add8_value [of a b l] add8_ledger [of a b l] vm_step_add [of s] by simp
qed

theorem add8_saturates_witness:
  "2 \<le> sp two_on_stack \<and> sp two_on_stack \<le> stack_size \<and>
   map_option (\<lambda>(c, s'). (c, sp s', stack s' 0, landauer (ledger s'))) (vm_step OP_POSIT_ADD two_on_stack)
     = Some (True, 1, 127, 1)"
proof -
  have a: "2 \<le> sp two_on_stack" and b: "sp two_on_stack \<le> stack_size"
    by (simp_all add: two_on_stack_def stack_size_def)
  have c: "fst (add8 127 1 \<lparr> landauer = 0 \<rparr>) = 127"
    by (simp add: add8_def Let_def word_sless_alt)
  from add8_saturates [of "\<lparr> landauer = 0 \<rparr>" 127 1 two_on_stack] a b c show ?thesis
    by (simp add: two_on_stack_def zero_machine_def)
qed

subsection \<open>C9: the buffer length stays within the capacity\<close>

text \<open>
  Claim C9: \<open>bc_len \<le> 128\<close> is an invariant of every slot of the arena. It holds in the
  initial state, and a slot that satisfies it still does after \<open>emit_byte\<close>, after
  \<open>jit_line\<close> on itself or on any other slot, and after \<open>patch_vm\<close>, whatever the
  text is: \<open>emit_byte\<close> writes and counts a byte only while \<open>bc_len < 128\<close>.
\<close>

theorem bc_len_bounded:
  assumes "unat (bc_len (arena s i)) \<le> bc_size"
  shows "unat (bc_len (arena zero_machine i)) \<le> bc_size \<and>
         unat (bc_len (emit_byte (arena s i) b)) \<le> bc_size \<and>
         unat (bc_len (jit_line_L (arena s i))) \<le> bc_size \<and>
         unat (bc_len (arena (jit_line k s) i)) \<le> bc_size \<and>
         unat (bc_len (arena (patch_vm s) i)) \<le> bc_size"
  using assms
  by (auto simp: emit_byte_len jit_line_L_len jit_line_def patch_vm_def patch_from_arena vm_reset_def
      zero_machine_def zero_line_def)

theorem bc_len_bounded_witness:
  "unat (bc_len (arena (zero_machine\<lparr>arena := (\<lambda>_. zero_line\<lparr>text := ''add add quine''\<rparr>)\<rparr>) 0)) \<le> bc_size \<and>
   unat (bc_len (jit_line_L (zero_line\<lparr>text := ''add add quine''\<rparr>))) = 3"
proof -
  have a: "unat (bc_len (arena (zero_machine\<lparr>arena := (\<lambda>_. zero_line\<lparr>text := ''add add quine''\<rparr>)\<rparr>) 0)) \<le> bc_size"
    by (simp add: zero_line_def bc_size_def)
  have b: "unat (bc_len (jit_line_L (zero_line\<lparr>text := ''add add quine''\<rparr>))) = 3"
    by code_simp
  from bc_len_bounded [OF a] a b show ?thesis
    by simp
qed

subsection \<open>C10: HALT and unknown opcodes\<close>

text \<open>
  Claim C10: an opcode other than \<open>ADD\<close> and \<open>MOMENT\<close>, that is \<open>HALT\<close> or any
  unrecognised byte, makes \<open>vm_step\<close> return \<open>false\<close> with the state it was given,
  and a run that meets such an opcode at position \<open>i\<close> ends there with the state it had:
  stack cells, stack pointer and ledger are as before the instruction.
\<close>

theorem halt_or_unknown_no_effect:
  assumes "op \<noteq> OP_POSIT_ADD" and "op \<noteq> OP_QUINE_MOMENT"
    and "i < unat (bc_len L)" and "i < bc_size" and "bc L i = op"
  shows "vm_step op s = Some (False, s) \<and> vm_run_from i L s = Some s"
proof -
  have st: "vm_step op s = Some (False, s)"
    using assms(1,2) by (rule vm_step_halt)
  then have "vm_step (bc L i) s = Some (False, s)"
    using assms(5) by simp
  with assms(3,4) have "vm_run_from i L s = Some s"
    by (rule vm_run_from_stop)
  with st show ?thesis by simp
qed

theorem halt_or_unknown_no_effect_witness:
  "OP_HALT \<noteq> OP_POSIT_ADD \<and> OP_HALT \<noteq> OP_QUINE_MOMENT \<and>
   vm_step OP_HALT two_on_stack = Some (False, two_on_stack) \<and>
   vm_run_line (prog [OP_HALT, OP_QUINE_MOMENT]) two_on_stack = Some two_on_stack"
proof -
  have a: "OP_HALT \<noteq> OP_POSIT_ADD" and b: "OP_HALT \<noteq> OP_QUINE_MOMENT"
    by (simp_all add: OP_HALT_def OP_POSIT_ADD_def OP_QUINE_MOMENT_def)
  have c: "0 < unat (bc_len (prog [OP_HALT, OP_QUINE_MOMENT]))"
    by (simp add: prog_def)
  have d: "0 < bc_size"
    by (simp add: bc_size_def)
  have e: "bc (prog [OP_HALT, OP_QUINE_MOMENT]) 0 = OP_HALT"
    by (simp add: prog_def)
  from halt_or_unknown_no_effect [OF a b c d e, of two_on_stack] a b show ?thesis
    by (simp add: vm_run_line_def)
qed

end
